theory Spec2Isabelle
  imports Main "HOL-Library.Multiset"
begin

section \<open>Data model\<close>

text \<open>
  Modelled from the spec: the \<^verbatim>\<open>Entity\<close> type of \<^verbatim>\<open>@models/entity\<close> is declared outside
  the sources at hand. An entity carries an optional identifier (the list reads it as
  \<^verbatim>\<open>entity.id!\<close>), an optional \<^verbatim>\<open>updatedAt\<close> date and domain fields the list never looks
  at. A date is represented by the integer its \<^verbatim>\<open>getTime()\<close> returns; \<^verbatim>\<open>null\<close> and
  \<^verbatim>\<open>undefined\<close> are both \<open>None\<close>, as \<^verbatim>\<open>== null\<close> does not tell them apart.
\<close>

record 'p entity =
  entity_id :: "string option"
  updatedAt :: "int option"
  payload :: 'p

text \<open>
  Modelled from the spec: the constants of \<^verbatim>\<open>@constants/statuses\<close> are declared outside
  the sources at hand. The spec's status is one of loading, success and error; the
  sign-in screen also imports \<^verbatim>\<open>STATUS_IDLE\<close>. They are taken to be pairwise different.
\<close>

datatype STATUS = STATUS_IDLE | STATUS_LOADING | STATUS_SUCCESS | STATUS_ERROR

text \<open>
  An array is an object: two variables may hold the same array, and \<^verbatim>\<open>sort\<close> and
  \<^verbatim>\<open>push\<close> change it in place. Arrays therefore live in a store and are named by
  their address.
\<close>

type_synonym addr = nat

text \<open>The component's \<^verbatim>\<open>state\<close> object.\<close>

record State =
  entities :: addr
  filter_st :: "string option"
  isRefreshing :: bool
  status :: STATUS
  error :: "string option"

text \<open>
  A \<^verbatim>\<open>FiltrableList\<close> instance with the objects around it: its \<^verbatim>\<open>state\<close>, whether
  \<^verbatim>\<open>this.unsubscribe\<close> has been assigned, the last arguments and last result kept by
  \<^verbatim>\<open>memoize-one\<close> for \<^verbatim>\<open>this.filterEntities\<close>, the store of arrays with its next unused
  address, and whether the query still holds the snapshot listener.
\<close>

record 'p component =
  state :: State
  unsubscribe :: bool
  memo :: "(addr \<times> string option \<times> addr) option"
  heap :: "addr \<Rightarrow> 'p entity list"
  next_free :: addr
  listening :: bool

text \<open>One element of \<^verbatim>\<open>querySnapshot.docChanges\<close>.\<close>

record 'd docChange =
  type_dc :: string
  doc :: 'd

section \<open>Helpers from outside the sources\<close>

text \<open>
  Modelled from the spec: \<^verbatim>\<open>isStringEmpty\<close> of \<^verbatim>\<open>@utils/is-string-empty\<close> is not among the
  sources. The spec reads its use on the filter as "absent or empty".
\<close>

definition isStringEmpty :: "string option \<Rightarrow> bool" where
  "isStringEmpty s = (case s of None \<Rightarrow> True | Some t \<Rightarrow> t = [])"

text \<open>
  \<^verbatim>\<open>Array.prototype.sort(compare)\<close>. The language fixes the result for a comparator that
  is consistent on the elements: they are rearranged, sorted, and elements that compare
  equal keep their order. For a comparator that is not consistent the language only
  says that the elements are rearranged; the order is the engine's. The model is the
  stable insertion sort: an element is moved behind another one only when the
  comparator returns a positive number for the two. On a consistent comparator it is
  the result the language prescribes. Where the comparator is not consistent, the
  claims about the order of the display sequence are not stated of it.
\<close>

fun insert_by :: "('a \<Rightarrow> 'a \<Rightarrow> int) \<Rightarrow> 'a \<Rightarrow> 'a list \<Rightarrow> 'a list" where
  "insert_by cmp x [] = [x]"
| "insert_by cmp x (y # ys) = (if cmp x y > 0 then y # insert_by cmp x ys else x # y # ys)"

definition array_sort :: "('a \<Rightarrow> 'a \<Rightarrow> int) \<Rightarrow> 'a list \<Rightarrow> 'a list" where
  "array_sort cmp xs = foldr (insert_by cmp) xs []"

text \<open>Creating an array object: it gets the next unused address.\<close>

definition alloc :: "'p entity list \<Rightarrow> 'p component \<Rightarrow> addr \<times> 'p component" where
  "alloc xs m = (next_free m, m\<lparr>heap := (heap m)(next_free m := xs), next_free := Suc (next_free m)\<rparr>)"

section \<open>The list component\<close>

text \<open>\<^verbatim>\<open>initialState\<close>, with the empty array at address 0.\<close>

definition initialState :: State where
  "initialState = \<lparr>entities = 0, filter_st = None, isRefreshing = False,
                    status = STATUS_LOADING, error = None\<rparr>"

definition initial :: "'p component" where
  "initial = \<lparr>state = initialState, unsubscribe = False, memo = None,
               heap = (\<lambda>_. []), next_free = 1, listening = False\<rparr>"

text \<open>
  \<^verbatim>\<open>compareUpdatedAt\<close>. The source subtracts the two times as doubles; the difference of
  the integers has the same sign and is zero in the same cases, and the sort looks at
  nothing else.
\<close>

definition compareUpdatedAt :: "'p entity \<Rightarrow> 'p entity \<Rightarrow> int" where
  "compareUpdatedAt e1 e2 =
     (if updatedAt e2 = None \<or> updatedAt e1 = None then 0
      else the (updatedAt e2) - the (updatedAt e1))"

text \<open>
  The function handed to \<^verbatim>\<open>memoize\<close>. With an empty filter \<^verbatim>\<open>filteredEntities\<close> is the
  array it was given; otherwise \<^verbatim>\<open>filter\<close> creates a new one. \<^verbatim>\<open>sort\<close> then sorts that
  array in place and returns it.
\<close>

definition filterEntities_fn ::
  "(string \<Rightarrow> 'p entity \<Rightarrow> bool) \<Rightarrow> addr \<Rightarrow> string option \<Rightarrow> 'p component \<Rightarrow> addr \<times> 'p component" where
  "filterEntities_fn matches ents flt m =
     (let (filteredEntities, m1) =
            (if \<not> isStringEmpty flt
             then alloc (filter (\<lambda>entity. matches (the flt) entity) (heap m ents)) m
             else (ents, m))
      in (filteredEntities,
          m1\<lparr>heap := (heap m1)(filteredEntities :=
                 array_sort compareUpdatedAt (heap m1 filteredEntities))\<rparr>))"

text \<open>
  \<^verbatim>\<open>memoize-one\<close>: when the arguments are \<^verbatim>\<open>===\<close> to the last ones, the last result is
  returned and the function is not called; otherwise it is called, and its arguments
  and result replace the remembered ones.
\<close>

definition call_and_remember ::
  "(string \<Rightarrow> 'p entity \<Rightarrow> bool) \<Rightarrow> addr \<Rightarrow> string option \<Rightarrow> 'p component \<Rightarrow> addr \<times> 'p component" where
  "call_and_remember matches ents flt m =
     (let (r, m1) = filterEntities_fn matches ents flt m
      in (r, m1\<lparr>memo := Some (ents, flt, r)\<rparr>))"

definition filterEntities ::
  "(string \<Rightarrow> 'p entity \<Rightarrow> bool) \<Rightarrow> addr \<Rightarrow> string option \<Rightarrow> 'p component \<Rightarrow> addr \<times> 'p component" where
  "filterEntities matches ents flt m =
     (case memo m of
        None \<Rightarrow> call_and_remember matches ents flt m
      | Some (lastEntities, lastFilter, lastResult) \<Rightarrow>
          if lastEntities = ents \<and> lastFilter = flt then (lastResult, m)
          else call_and_remember matches ents flt m)"

text \<open>The elements of the array that \<^verbatim>\<open>filterEntities\<close> returns.\<close>

definition displayed ::
  "(string \<Rightarrow> 'p entity \<Rightarrow> bool) \<Rightarrow> addr \<Rightarrow> string option \<Rightarrow> 'p component \<Rightarrow> 'p entity list" where
  "displayed matches ents flt m =
     (let (r, m1) = filterEntities_fn matches ents flt m in heap m1 r)"

text \<open>
  What \<^verbatim>\<open>forEach\<close> does with one change in \<^verbatim>\<open>onCollectionUpdate\<close>, on the elements of
  the local array (a copy made by \<^verbatim>\<open>Array.from\<close>, which no one else holds).
\<close>

definition applyDocChange :: "('d \<Rightarrow> 'p entity) \<Rightarrow> 'p entity list \<Rightarrow> 'd docChange \<Rightarrow> 'p entity list" where
  "applyDocChange documentSnapshotToEntity ents docChange =
     (let entity = documentSnapshotToEntity (doc docChange) in
      if type_dc docChange = ''added'' then ents @ [entity]
      else if type_dc docChange = ''removed'' then filter (\<lambda>e. entity_id e \<noteq> entity_id entity) ents
      else if type_dc docChange = ''modified''
        then map (\<lambda>e. if entity_id e = entity_id entity then entity else e) ents
      else ents)"

text \<open>
  In the handlers \<^verbatim>\<open>setState\<close> is the merge of the given fields into \<^verbatim>\<open>this.state\<close>, as
  React does it for a mounted component; what React does with the call otherwise is
  said further down, with the component in React's hands. The array that
  \<^verbatim>\<open>onCollectionUpdate\<close> stores is a new object.
\<close>

definition onCollectionUpdate :: "('d \<Rightarrow> 'p entity) \<Rightarrow> 'd docChange list \<Rightarrow> 'p component \<Rightarrow> 'p component" where
  "onCollectionUpdate documentSnapshotToEntity docChanges m =
     (let ents = foldl (applyDocChange documentSnapshotToEntity) (heap m (entities (state m))) docChanges;
          (a, m1) = alloc ents m
      in m1\<lparr>state := (state m1)\<lparr>entities := a\<rparr>\<rparr>)"

text \<open>
  \<^verbatim>\<open>getErrorMessageFromFirestoreError\<close> is not among the sources; it is the parameter
  \<open>translate\<close>.
\<close>

definition onCollectionError :: "('err \<Rightarrow> string) \<Rightarrow> 'err \<Rightarrow> 'p component \<Rightarrow> 'p component" where
  "onCollectionError translate err m =
     m\<lparr>state := (state m)\<lparr>status := STATUS_ERROR, error := Some (translate err)\<rparr>\<rparr>"

text \<open>
  \<^verbatim>\<open>refreshEntities\<close> awaits \<^verbatim>\<open>this.query.get()\<close>. Nothing is written before the promise
  settles; this is what runs when it does, with the rejection (\<open>Inl\<close>) or the documents
  of the snapshot (\<open>Inr\<close>).
\<close>

definition refreshEntities ::
  "('d \<Rightarrow> 'p entity) \<Rightarrow> ('err \<Rightarrow> string) \<Rightarrow> 'err + 'd list \<Rightarrow> 'p component \<Rightarrow> 'p component" where
  "refreshEntities documentSnapshotToEntity translate outcome m =
     (case outcome of
        Inr docs \<Rightarrow>
          (let (a, m1) = alloc (array_sort compareUpdatedAt (map documentSnapshotToEntity docs)) m
           in m1\<lparr>state := (state m1)\<lparr>entities := a, status := STATUS_SUCCESS\<rparr>\<rparr>)
      | Inl err \<Rightarrow>
          m\<lparr>state := (state m)\<lparr>status := STATUS_ERROR, error := Some (translate err)\<rparr>\<rparr>)"

text \<open>
  \<^verbatim>\<open>componentDidMount\<close> up to its \<^verbatim>\<open>await\<close>: the listener is registered and the function
  that removes it is kept. The fetch it starts settles later, through \<open>refreshEntities\<close>.
\<close>

definition componentDidMount :: "'p component \<Rightarrow> 'p component" where
  "componentDidMount m = m\<lparr>unsubscribe := True, listening := True\<rparr>"

definition componentWillUnmount :: "'p component \<Rightarrow> 'p component" where
  "componentWillUnmount m = (if unsubscribe m then m\<lparr>listening := False\<rparr> else m)"

text \<open>
  \<^verbatim>\<open>handleRefresh\<close>: the first \<^verbatim>\<open>setState\<close>, and then its callback once the fetch of
  \<^verbatim>\<open>refreshEntities\<close> has settled.
\<close>

definition handleRefresh :: "'p component \<Rightarrow> 'p component" where
  "handleRefresh m = m\<lparr>state := (state m)\<lparr>isRefreshing := True\<rparr>\<rparr>"

definition handleRefresh_settled ::
  "('d \<Rightarrow> 'p entity) \<Rightarrow> ('err \<Rightarrow> string) \<Rightarrow> 'err + 'd list \<Rightarrow> 'p component \<Rightarrow> 'p component" where
  "handleRefresh_settled documentSnapshotToEntity translate outcome m =
     (let m1 = refreshEntities documentSnapshotToEntity translate outcome m
      in m1\<lparr>state := (state m1)\<lparr>isRefreshing := False\<rparr>\<rparr>)"

definition handleFilterChange :: "string \<Rightarrow> 'p component \<Rightarrow> 'p component" where
  "handleFilterChange flt m = m\<lparr>state := (state m)\<lparr>filter_st := Some flt\<rparr>\<rparr>"

definition handleCloseFilterPress :: "'p component \<Rightarrow> 'p component" where
  "handleCloseFilterPress m = m\<lparr>state := (state m)\<lparr>filter_st := None\<rparr>\<rparr>"

text \<open>What \<^verbatim>\<open>renderContent\<close> returns, and what it does to the arrays on the way.\<close>

datatype content =
    ActivityIndicator
  | ErrorMessage "string option"
  | EmptyListMessage
  | FlatList addr bool

definition renderContent :: "(string \<Rightarrow> 'p entity \<Rightarrow> bool) \<Rightarrow> 'p component \<Rightarrow> content \<times> 'p component" where
  "renderContent matches m =
     (if status (state m) = STATUS_LOADING then (ActivityIndicator, m)
      else if status (state m) = STATUS_ERROR then (ErrorMessage (error (state m)), m)
      else (let (r, m1) = filterEntities matches (entities (state m)) (filter_st (state m)) m
            in if length (heap m1 r) = 0 then (EmptyListMessage, m1)
               else (FlatList r (isRefreshing (state m1)), m1)))"

text \<open>Everything that can happen to a mounted list, as one step function.\<close>

datatype ('d, 'err) event =
    Mount
  | Snapshot "'d docChange list"
  | SnapshotFailed 'err
  | FetchSettled "'err + 'd list"
  | RefreshPulled
  | RefreshSettled "'err + 'd list"
  | FilterChanged string
  | FilterClosed
  | Rendered
  | Unmount

fun step ::
  "('d \<Rightarrow> 'p entity) \<Rightarrow> ('err \<Rightarrow> string) \<Rightarrow> (string \<Rightarrow> 'p entity \<Rightarrow> bool) \<Rightarrow>
   ('d, 'err) event \<Rightarrow> 'p component \<Rightarrow> 'p component" where
  "step toEntity translate matches Mount m = componentDidMount m"
| "step toEntity translate matches (Snapshot changes) m = onCollectionUpdate toEntity changes m"
| "step toEntity translate matches (SnapshotFailed err) m = onCollectionError translate err m"
| "step toEntity translate matches (FetchSettled outcome) m = refreshEntities toEntity translate outcome m"
| "step toEntity translate matches RefreshPulled m = handleRefresh m"
| "step toEntity translate matches (RefreshSettled outcome) m = handleRefresh_settled toEntity translate outcome m"
| "step toEntity translate matches (FilterChanged flt) m = handleFilterChange flt m"
| "step toEntity translate matches FilterClosed m = handleCloseFilterPress m"
| "step toEntity translate matches Rendered m = snd (renderContent matches m)"
| "step toEntity translate matches Unmount m = componentWillUnmount m"

section \<open>The component in React's hands\<close>

text \<open>
  React holds the instance and decides what a \<^verbatim>\<open>setState\<close> call does. While the component
  is mounted the call is merged into \<^verbatim>\<open>this.state\<close>, which is what the handlers above
  say. Before it is mounted and after React has unmounted it, React drops the call:
  the handler runs, the arrays it made exist, and \<^verbatim>\<open>this.state\<close> stays as it was.
\<close>

datatype phase = Constructed | Mounted | Unmounted

record 'p fiber =
  inst :: "'p component"
  phase :: phase

definition with_setState :: "('p component \<Rightarrow> 'p component) \<Rightarrow> 'p fiber \<Rightarrow> 'p fiber" where
  "with_setState handler f =
     (let m = handler (inst f)
      in if phase f = Mounted then f\<lparr>inst := m\<rparr>
         else f\<lparr>inst := m\<lparr>state := state (inst f)\<rparr>\<rparr>)"

text \<open>
  One event in the life of the component. React mounts a constructed component and then
  calls \<^verbatim>\<open>componentDidMount\<close>; it unmounts a mounted one, calling \<^verbatim>\<open>componentWillUnmount\<close>
  on the way; it does not draw an unmounted one. Everything else is a handler of the
  component, whose \<^verbatim>\<open>setState\<close> calls go through React.
\<close>

fun react_step ::
  "('d \<Rightarrow> 'p entity) \<Rightarrow> ('err \<Rightarrow> string) \<Rightarrow> (string \<Rightarrow> 'p entity \<Rightarrow> bool) \<Rightarrow>
   ('d, 'err) event \<Rightarrow> 'p fiber \<Rightarrow> 'p fiber" where
  "react_step toEntity translate matches Mount f =
     (if phase f = Constructed then f\<lparr>inst := componentDidMount (inst f), phase := Mounted\<rparr> else f)"
| "react_step toEntity translate matches Unmount f =
     (if phase f = Mounted then f\<lparr>inst := componentWillUnmount (inst f), phase := Unmounted\<rparr> else f)"
| "react_step toEntity translate matches Rendered f =
     (if phase f = Unmounted then f else f\<lparr>inst := snd (renderContent matches (inst f))\<rparr>)"
| "react_step toEntity translate matches (Snapshot changes) f =
     with_setState (onCollectionUpdate toEntity changes) f"
| "react_step toEntity translate matches (SnapshotFailed err) f =
     with_setState (onCollectionError translate err) f"
| "react_step toEntity translate matches (FetchSettled outcome) f =
     with_setState (refreshEntities toEntity translate outcome) f"
| "react_step toEntity translate matches RefreshPulled f = with_setState handleRefresh f"
| "react_step toEntity translate matches (RefreshSettled outcome) f =
     with_setState (handleRefresh_settled toEntity translate outcome) f"
| "react_step toEntity translate matches (FilterChanged flt) f =
     with_setState (handleFilterChange flt) f"
| "react_step toEntity translate matches FilterClosed f = with_setState handleCloseFilterPress f"

definition react_run ::
  "('d \<Rightarrow> 'p entity) \<Rightarrow> ('err \<Rightarrow> string) \<Rightarrow> (string \<Rightarrow> 'p entity \<Rightarrow> bool) \<Rightarrow>
   ('d, 'err) event list \<Rightarrow> 'p fiber \<Rightarrow> 'p fiber" where
  "react_run toEntity translate matches evs f =
     foldl (\<lambda>f ev. react_step toEntity translate matches ev f) f evs"

text \<open>A component that has been constructed and not yet mounted.\<close>

definition constructed :: "'p fiber" where
  "constructed = \<lparr>inst = initial, phase = Constructed\<rparr>"

section \<open>Sign-up\<close>

text \<open>
  What the \<^verbatim>\<open>catch\<close> clause of \<^verbatim>\<open>signUp\<close> can receive: an \<^verbatim>\<open>Error\<close> made in the
  \<^verbatim>\<open>try\<close> block, or whatever the backend rejected with.
\<close>

datatype 'b thrown = Error string | Backend 'b

text \<open>
  \<^verbatim>\<open>signUp\<close>. The backend call is the parameter \<open>createUser\<close>, giving the outcome of the
  awaited promise; the calls made to it are listed beside the result. The result is
  \<open>Inl msg\<close> when the returned promise rejects with \<^verbatim>\<open>new Error(msg)\<close>.
\<close>

definition signUp ::
  "('b thrown \<Rightarrow> string) \<Rightarrow> (string \<Rightarrow> string \<Rightarrow> 'b + unit) \<Rightarrow> string option \<Rightarrow> string option
   \<Rightarrow> (string + unit) \<times> (string \<times> string) list" where
  "signUp translate createUser email password =
     (let (attempt, calls) =
            (if isStringEmpty email then (Inl (Error ''Email is required.''), [])
             else if isStringEmpty password then (Inl (Error ''Password is required.''), [])
             else (case createUser (the email) (the password) of
                     Inl b \<Rightarrow> Inl (Backend b)
                   | Inr u \<Rightarrow> Inr (),
                   [(the email, the password)]))
      in (case attempt of Inl err \<Rightarrow> Inl (translate err) | Inr u \<Rightarrow> Inr (), calls))"

section \<open>The mapping of the specification\<close>

text \<open>
  The spec describes \<^verbatim>\<open>entities\<close> as a mapping from id to entity and \<^verbatim>\<open>applyDelta\<close> as a
  fold over it: \<^verbatim>\<open>added\<close> inserts or overwrites, \<^verbatim>\<open>modified\<close> replaces an entry that
  exists and does nothing otherwise, \<^verbatim>\<open>removed\<close> deletes. This is that mapping, to be
  compared with the array of the code.
\<close>

definition applyDelta_spec ::
  "(string option \<rightharpoonup> 'p entity) \<Rightarrow> string \<times> 'p entity \<Rightarrow> (string option \<rightharpoonup> 'p entity)" where
  "applyDelta_spec es d =
     (let kind = fst d; e = snd d in
      if kind = ''added'' then es(entity_id e \<mapsto> e)
      else if kind = ''modified'' then (if es (entity_id e) \<noteq> None then es(entity_id e \<mapsto> e) else es)
      else if kind = ''removed'' then es(entity_id e := None)
      else es)"

text \<open>The mapping that an array of entities stands for.\<close>

definition entities_map :: "'p entity list \<Rightarrow> (string option \<rightharpoonup> 'p entity)" where
  "entities_map ents = map_of (map (\<lambda>e. (entity_id e, e)) ents)"

text \<open>
  Every \<^verbatim>\<open>added\<close> change of the sequence carries an id that the array does not hold at
  the moment the change is applied.
\<close>

fun fresh_adds :: "('d \<Rightarrow> 'p entity) \<Rightarrow> 'p entity list \<Rightarrow> 'd docChange list \<Rightarrow> bool" where
  "fresh_adds toEntity ents [] = True"
| "fresh_adds toEntity ents (c # cs) =
     ((type_dc c \<noteq> ''added'' \<or> entity_id (toEntity (doc c)) \<notin> set (map entity_id ents))
      \<and> fresh_adds toEntity (applyDocChange toEntity ents c) cs)"

section \<open>Runs of the component\<close>

text \<open>The list after a sequence of events, from the freshly constructed component.\<close>

definition run ::
  "('d \<Rightarrow> 'p entity) \<Rightarrow> ('err \<Rightarrow> string) \<Rightarrow> (string \<Rightarrow> 'p entity \<Rightarrow> bool) \<Rightarrow>
   ('d, 'err) event list \<Rightarrow> 'p component" where
  "run toEntity translate matches evs = foldl (\<lambda>m ev. step toEntity translate matches ev m) initial evs"

text \<open>
  What holds of the remembered call in every run: the arrays it names and the stored
  array exist, and the remembered result holds the sorted candidates of the remembered
  arguments.
\<close>

definition memo_ok :: "(string \<Rightarrow> 'p entity \<Rightarrow> bool) \<Rightarrow> 'p component \<Rightarrow> bool" where
  "memo_ok matches m =
     (entities (state m) < next_free m \<and>
      (case memo m of
         None \<Rightarrow> True
       | Some (a, flt, r) \<Rightarrow>
           a < next_free m \<and> r < next_free m \<and>
           heap m r = array_sort compareUpdatedAt
             (if isStringEmpty flt then heap m a else filter (\<lambda>e. matches (the flt) e) (heap m a))))"

section \<open>Sample data\<close>

definition ent :: "string \<Rightarrow> int option \<Rightarrow> string \<Rightarrow> string entity" where
  "ent i t p = \<lparr>entity_id = Some i, updatedAt = t, payload = p\<rparr>"

definition change :: "string \<Rightarrow> string entity \<Rightarrow> string entity docChange" where
  "change k e = \<lparr>type_dc = k, doc = e\<rparr>"

definition sample_translate :: "string \<Rightarrow> string" where
  "sample_translate e = ''Error: '' @ e"

definition payload_matches :: "string \<Rightarrow> string entity \<Rightarrow> bool" where
  "payload_matches flt e = (payload e = flt)"

definition thrown_message :: "string thrown \<Rightarrow> string" where
  "thrown_message t = (case t of Error msg \<Rightarrow> msg | Backend code \<Rightarrow> ''auth/'' @ code)"

definition sample_createUser :: "string \<Rightarrow> string \<Rightarrow> string + unit" where
  "sample_createUser email password =
     (if email = ''taken@example.org'' then Inl ''email-already-in-use'' else Inr ())"

definition three_added :: "string component" where
  "three_added = onCollectionUpdate id
     [change ''added'' (ent ''a'' (Some 1) ''x''), change ''added'' (ent ''b'' (Some 5) ''y''),
      change ''added'' (ent ''c'' (Some 5) ''z'')] initial"

definition twice_added :: "string component" where
  "twice_added = onCollectionUpdate id
     [change ''added'' (ent ''a'' (Some 1) ''x''), change ''added'' (ent ''a'' (Some 2) ''y'')] initial"

definition fetched_then_two_added :: "string component" where
  "fetched_then_two_added = onCollectionUpdate id
     [change ''added'' (ent ''a'' (Some 1) ''x''), change ''added'' (ent ''b'' (Some 5) ''y'')]
     (refreshEntities id sample_translate (Inr []) (componentDidMount initial))"


definition mixed_dates :: "string component" where
  "mixed_dates = onCollectionUpdate id
     [change ''added'' (ent ''a'' (Some 1) ''x''), change ''added'' (ent ''n1'' None ''y''),
      change ''added'' (ent ''n2'' None ''z''), change ''added'' (ent ''b'' (Some 5) ''w'')] initial"

definition shown_list :: "string fiber" where
  "shown_list = react_run id sample_translate payload_matches
     [Mount, FetchSettled (Inr [ent ''a'' (Some 1) ''x'']), Rendered] constructed"

definition late_events :: "(string entity, string) event list" where
  "late_events =
     [Snapshot [change ''added'' (ent ''b'' (Some 5) ''y'')], SnapshotFailed ''late'',
      FetchSettled (Inr [ent ''c'' (Some 7) ''z'']), RefreshSettled (Inl ''late'')]"

definition later_changes :: "string entity docChange list" where
  "later_changes =
     [change ''modified'' (ent ''b'' (Some 9) ''y2''), change ''removed'' (ent ''a'' None []),
      change ''added'' (ent ''d'' None ''v''), change ''modified'' (ent ''q'' None ''w'')]"

section \<open>The sort\<close>

lemma mset_insert_by: "mset (insert_by cmp x ys) = add_mset x (mset ys)"
  by (induction ys) simp_all

lemma mset_array_sort: "mset (array_sort cmp xs) = mset xs"
  by (induction xs) (simp_all add: array_sort_def mset_insert_by)

lemma array_sort_Cons: "array_sort cmp (x # xs) = insert_by cmp x (array_sort cmp xs)"
  by (simp add: array_sort_def)

lemma array_sort_Nil: "array_sort cmp [] = []"
  by (simp add: array_sort_def)

lemma filter_insert_by:
  assumes "\<And>y. P x \<Longrightarrow> P y \<Longrightarrow> cmp x y \<le> 0"
  shows "filter P (insert_by cmp x ys) = (if P x then x # filter P ys else filter P ys)"
proof (induction ys)
  case Nil
  show ?case by simp
next
  case (Cons y ys)
  show ?case
  proof (cases "cmp x y > 0")
    case True
    with assms have "\<not> (P x \<and> P y)" by force
    with True Cons.IH show ?thesis by auto
  next
    case False
    then show ?thesis by simp
  qed
qed

lemma compareUpdatedAt_same_key:
  "updatedAt a = updatedAt b \<Longrightarrow> compareUpdatedAt a b = 0"
  by (simp add: compareUpdatedAt_def)

lemma array_sort_stable:
  "filter (\<lambda>e. updatedAt e = k) (array_sort compareUpdatedAt xs) = filter (\<lambda>e. updatedAt e = k) xs"
proof (induction xs)
  case Nil
  show ?case by (simp add: array_sort_Nil)
next
  case (Cons x xs)
  have "filter (\<lambda>e. updatedAt e = k) (insert_by compareUpdatedAt x (array_sort compareUpdatedAt xs))
        = (if updatedAt x = k then x # filter (\<lambda>e. updatedAt e = k) (array_sort compareUpdatedAt xs)
           else filter (\<lambda>e. updatedAt e = k) (array_sort compareUpdatedAt xs))"
    by (rule filter_insert_by) (simp add: compareUpdatedAt_same_key)
  with Cons.IH show ?case by (simp add: array_sort_Cons)
qed

lemma compareUpdatedAt_antisym: "compareUpdatedAt a b > 0 \<Longrightarrow> compareUpdatedAt b a \<le> 0"
  by (simp add: compareUpdatedAt_def split: if_splits)

lemma hd_insert_by: "hd (insert_by cmp x ys) = x \<or> (ys \<noteq> [] \<and> hd (insert_by cmp x ys) = hd ys)"
  by (cases ys) auto

lemma successively_insert_by:
  assumes anti: "\<And>a b. cmp a b > 0 \<Longrightarrow> cmp b a \<le> 0"
  shows "successively (\<lambda>a b. cmp a b \<le> 0) ys \<Longrightarrow> successively (\<lambda>a b. cmp a b \<le> 0) (insert_by cmp x ys)"
proof (induction ys)
  case Nil
  show ?case by simp
next
  case (Cons y ys)
  show ?case
  proof (cases "cmp x y > 0")
    case False
    with Cons.prems show ?thesis by simp
  next
    case True
    from Cons.prems have tl: "successively (\<lambda>a b. cmp a b \<le> 0) ys"
      by (auto simp: successively_Cons)
    from Cons.prems have hdys: "ys \<noteq> [] \<Longrightarrow> cmp y (hd ys) \<le> 0"
      by (auto simp: successively_Cons)
    have "cmp y (hd (insert_by cmp x ys)) \<le> 0"
      using hd_insert_by[of cmp x ys] anti[OF True] hdys by auto
    with True Cons.IH[OF tl] show ?thesis
      by (simp add: successively_Cons)
  qed
qed

lemma successively_array_sort:
  "successively (\<lambda>a b. compareUpdatedAt a b \<le> 0) (array_sort compareUpdatedAt xs)"
  by (induction xs)
     (simp_all add: array_sort_Nil array_sort_Cons successively_insert_by compareUpdatedAt_antisym)

lemma set_array_sort: "set (array_sort cmp xs) = set xs"
  by (metis mset_array_sort set_mset_mset)

lemma sorted_desc_array_sort:
  assumes "\<forall>e \<in> set xs. updatedAt e \<noteq> None"
  shows "sorted_wrt (\<lambda>a b. the (updatedAt a) \<ge> the (updatedAt b)) (array_sort compareUpdatedAt xs)"
proof -
  let ?ys = "array_sort compareUpdatedAt xs"
  have pres: "\<forall>e \<in> set ?ys. updatedAt e \<noteq> None"
    using assms by (simp add: set_array_sort)
  have "successively (\<lambda>a b. compareUpdatedAt a b \<le> 0) ?ys"
    by (rule successively_array_sort)
  moreover have "successively (\<lambda>a b. compareUpdatedAt a b \<le> 0) ?ys \<longleftrightarrow>
                 sorted_wrt (\<lambda>a b. compareUpdatedAt a b \<le> 0) ?ys"
    by (rule successively_iff_sorted_wrt_strong) (use pres in \<open>auto simp: compareUpdatedAt_def\<close>)
  ultimately have "sorted_wrt (\<lambda>a b. compareUpdatedAt a b \<le> 0) ?ys" by simp
  then show ?thesis
    by (rule sorted_wrt_mono_rel[rotated]) (use pres in \<open>auto simp: compareUpdatedAt_def\<close>)
qed

section \<open>The display sequence\<close>

lemma displayed_eq:
  "displayed matches a flt m =
     array_sort compareUpdatedAt
       (if isStringEmpty flt then heap m a else filter (\<lambda>e. matches (the flt) e) (heap m a))"
  by (simp add: displayed_def filterEntities_fn_def alloc_def)

lemma three_added_heap:
  "heap three_added (entities (state three_added))
     = [ent ''a'' (Some 1) ''x'', ent ''b'' (Some 5) ''y'', ent ''c'' (Some 5) ''z'']"
  by (simp add: three_added_def onCollectionUpdate_def alloc_def initial_def initialState_def
                applyDocChange_def change_def)

lemma compareUpdatedAt_sign:
  assumes "updatedAt e1 \<noteq> None" and "updatedAt e2 \<noteq> None"
  shows "compareUpdatedAt e1 e2 > 0 \<longleftrightarrow> the (updatedAt e1) < the (updatedAt e2)"
    and "compareUpdatedAt e1 e2 = 0 \<longleftrightarrow> updatedAt e1 = updatedAt e2"
    and "compareUpdatedAt e1 e2 < 0 \<longleftrightarrow> the (updatedAt e1) > the (updatedAt e2)"
  using assms by (auto simp: compareUpdatedAt_def)

text \<open>
  When every element has a date the comparator is consistent, and the result is the
  one list that is a rearrangement, descending, and keeps elements of equal date in
  their order: the stable sort by descending date.
\<close>

lemma array_sort_all_dated:
  assumes "\<forall>e \<in> set xs. updatedAt e \<noteq> None"
  shows "array_sort compareUpdatedAt xs = sort_key (\<lambda>e. - the (updatedAt e)) xs"
proof (rule properties_for_sort_key[symmetric])
  let ?ys = "array_sort compareUpdatedAt xs"
  show "mset ?ys = mset xs" by (rule mset_array_sort)
  show "sorted (map (\<lambda>e. - the (updatedAt e)) ?ys)"
    using sorted_desc_array_sort[OF assms] by (simp add: sorted_map)
  show "filter (\<lambda>x. - the (updatedAt k) = - the (updatedAt x)) ?ys
          = filter (\<lambda>x. - the (updatedAt k) = - the (updatedAt x)) xs" if "k \<in> set ?ys" for k
  proof -
    have k: "updatedAt k \<noteq> None" using that assms by (simp add: set_array_sort)
    have eq: "(the (updatedAt k) = the (updatedAt x)) = (updatedAt x = updatedAt k)"
      if "x \<in> set xs" for x
      using that assms k by auto
    have "filter (\<lambda>x. - the (updatedAt k) = - the (updatedAt x)) ?ys
            = filter (\<lambda>x. updatedAt x = updatedAt k) ?ys"
      by (rule filter_cong) (simp_all add: set_array_sort eq)
    also have "\<dots> = filter (\<lambda>x. updatedAt x = updatedAt k) xs"
      by (rule array_sort_stable)
    also have "\<dots> = filter (\<lambda>x. - the (updatedAt k) = - the (updatedAt x)) xs"
      by (rule filter_cong) (simp_all add: eq)
    finally show ?thesis .
  qed
qed

text \<open>When no element has a date every comparison is 0, and the array stays as it is.\<close>

lemma array_sort_none_dated:
  assumes "\<forall>e \<in> set xs. updatedAt e = None"
  shows "array_sort compareUpdatedAt xs = xs"
proof -
  have "filter (\<lambda>e. updatedAt e = None) (array_sort compareUpdatedAt xs)
          = filter (\<lambda>e. updatedAt e = None) xs"
    by (rule array_sort_stable)
  moreover have "filter (\<lambda>e. updatedAt e = None) (array_sort compareUpdatedAt xs)
                   = array_sort compareUpdatedAt xs"
    using assms by (simp add: set_array_sort)
  moreover have "filter (\<lambda>e. updatedAt e = None) xs = xs"
    using assms by simp
  ultimately show ?thesis by simp
qed

lemma mixed_dates_heap:
  "heap mixed_dates (entities (state mixed_dates))
     = [ent ''a'' (Some 1) ''x'', ent ''n1'' None ''y'', ent ''n2'' None ''z'', ent ''b'' (Some 5) ''w'']"
  by (simp add: mixed_dates_def onCollectionUpdate_def alloc_def initial_def initialState_def
                applyDocChange_def change_def)

text \<open>
  C6, as amended. The comparator returns 0 as soon as one of the two \<^verbatim>\<open>updatedAt\<close> is
  absent; between two dates it is positive, zero or negative as the first is earlier
  than, equal to or later than the second. When every candidate has an \<^verbatim>\<open>updatedAt\<close>,
  the display sequence is the stable sort of the candidates by descending date: it is
  descending, and for every date the entities with that date stand in the order they
  had among the candidates. When no candidate has an \<^verbatim>\<open>updatedAt\<close>, the display sequence
  is the candidates in their order. When dated and undated candidates mix, the display
  sequence is a rearrangement of the candidates, and nothing is said of its order.
\<close>

theorem display_sort_consistent_dates:
  "(updatedAt e1 = None \<or> updatedAt e2 = None \<longrightarrow> compareUpdatedAt e1 e2 = 0)
   \<and> (updatedAt e1 \<noteq> None \<and> updatedAt e2 \<noteq> None \<longrightarrow>
        (compareUpdatedAt e1 e2 > 0 \<longleftrightarrow> the (updatedAt e1) < the (updatedAt e2))
        \<and> (compareUpdatedAt e1 e2 = 0 \<longleftrightarrow> updatedAt e1 = updatedAt e2)
        \<and> (compareUpdatedAt e1 e2 < 0 \<longleftrightarrow> the (updatedAt e1) > the (updatedAt e2)))
   \<and> (let cands = (if isStringEmpty flt then heap m a
                     else filter (\<lambda>e. matches (the flt) e) (heap m a))
       in ((\<forall>e \<in> set cands. updatedAt e \<noteq> None) \<longrightarrow>
             displayed matches a flt m = sort_key (\<lambda>e. - the (updatedAt e)) cands
             \<and> sorted_wrt (\<lambda>x y. the (updatedAt x) \<ge> the (updatedAt y)) (displayed matches a flt m)
             \<and> filter (\<lambda>e. updatedAt e = k) (displayed matches a flt m)
                 = filter (\<lambda>e. updatedAt e = k) cands)
          \<and> ((\<forall>e \<in> set cands. updatedAt e = None) \<longrightarrow> displayed matches a flt m = cands)
          \<and> mset (displayed matches a flt m) = mset cands)"
proof -
  let ?cands = "if isStringEmpty flt then heap m a else filter (\<lambda>e. matches (the flt) e) (heap m a)"
  have d: "displayed matches a flt m = array_sort compareUpdatedAt ?cands"
    by (rule displayed_eq)
  have c1: "updatedAt e1 = None \<or> updatedAt e2 = None \<longrightarrow> compareUpdatedAt e1 e2 = 0"
    by (auto simp: compareUpdatedAt_def)
  have c2: "updatedAt e1 \<noteq> None \<and> updatedAt e2 \<noteq> None \<longrightarrow>
        (compareUpdatedAt e1 e2 > 0 \<longleftrightarrow> the (updatedAt e1) < the (updatedAt e2))
        \<and> (compareUpdatedAt e1 e2 = 0 \<longleftrightarrow> updatedAt e1 = updatedAt e2)
        \<and> (compareUpdatedAt e1 e2 < 0 \<longleftrightarrow> the (updatedAt e1) > the (updatedAt e2))"
    using compareUpdatedAt_sign[of e1 e2] by blast
  have dated: "displayed matches a flt m = sort_key (\<lambda>e. - the (updatedAt e)) ?cands
             \<and> sorted_wrt (\<lambda>x y. the (updatedAt x) \<ge> the (updatedAt y)) (displayed matches a flt m)
             \<and> filter (\<lambda>e. updatedAt e = k) (displayed matches a flt m)
                 = filter (\<lambda>e. updatedAt e = k) ?cands"
    if "\<forall>e \<in> set ?cands. updatedAt e \<noteq> None"
    unfolding d
    using array_sort_all_dated[OF that] sorted_desc_array_sort[OF that]
          array_sort_stable[of k ?cands]
    by simp
  have undated: "displayed matches a flt m = ?cands" if "\<forall>e \<in> set ?cands. updatedAt e = None"
    unfolding d using that by (rule array_sort_none_dated)
  have perm: "mset (displayed matches a flt m) = mset ?cands"
    unfolding d by (rule mset_array_sort)
  from c1 c2 dated undated perm show ?thesis
    unfolding Let_def by blast
qed

text \<open>
  On three entities added with the dates 1, 5 and 5: the two with date 5 come first, in
  the order they were added, and the one with date 1 is last.
\<close>

theorem display_sort_consistent_dates_witness:
  "displayed payload_matches (entities (state three_added)) None three_added
     = [ent ''b'' (Some 5) ''y'', ent ''c'' (Some 5) ''z'', ent ''a'' (Some 1) ''x'']
   \<and> filter (\<lambda>e. updatedAt e = Some 5)
          (displayed payload_matches (entities (state three_added)) None three_added)
     = [ent ''b'' (Some 5) ''y'', ent ''c'' (Some 5) ''z'']"
  using display_sort_consistent_dates
          [where ?e1.0 = "ent ''a'' (Some 1) ''x''" and ?e2.0 = "ent ''b'' (Some 5) ''y''"
             and k = "Some 5" and matches = payload_matches
             and a = "entities (state three_added)" and flt = None and m = three_added]
  by (simp add: three_added_heap isStringEmpty_def ent_def)

text \<open>
  C6, as stated, fails. Four entities were added: one dated 1, two without a date, one
  dated 5. Every pair of neighbours compares as 0, the array is displayed as it is,
  and the entity dated 1 stands before the entity dated 5, although the comparator
  puts it behind when the two are compared.
\<close>

theorem display_not_descending_with_undated:
  "map updatedAt (displayed payload_matches (entities (state mixed_dates)) None mixed_dates)
     = [Some 1, None, None, Some 5]
   \<and> compareUpdatedAt (ent ''a'' (Some 1) ''x'') (ent ''n1'' None ''y'') = 0
   \<and> compareUpdatedAt (ent ''n1'' None ''y'') (ent ''n2'' None ''z'') = 0
   \<and> compareUpdatedAt (ent ''n2'' None ''z'') (ent ''b'' (Some 5) ''w'') = 0
   \<and> compareUpdatedAt (ent ''a'' (Some 1) ''x'') (ent ''b'' (Some 5) ''w'') > 0"
  by (simp add: displayed_eq mixed_dates_heap isStringEmpty_def array_sort_def
                compareUpdatedAt_def ent_def)

section \<open>The handlers of the feed\<close>

text \<open>
  C7. When \<^verbatim>\<open>onCollectionError\<close> runs, \<^verbatim>\<open>status\<close> becomes the error status, \<^verbatim>\<open>error\<close>
  becomes the translated message, and \<^verbatim>\<open>entities\<close> is the array it was, with the
  elements it had; the filter is untouched as well.
\<close>

theorem onCollectionError_keeps_entities:
  "status (state (onCollectionError translate err m)) = STATUS_ERROR
   \<and> error (state (onCollectionError translate err m)) = Some (translate err)
   \<and> entities (state (onCollectionError translate err m)) = entities (state m)
   \<and> heap (onCollectionError translate err m) = heap m
   \<and> filter_st (state (onCollectionError translate err m)) = filter_st (state m)"
  by (simp add: onCollectionError_def)

lemma applyDocChange_modified_absent:
  assumes "type_dc c = ''modified''"
      and "entity_id (toEntity (doc c)) \<notin> set (map entity_id ents)"
  shows "applyDocChange toEntity ents c = ents"
proof -
  have "map (\<lambda>e. if entity_id e = entity_id (toEntity (doc c)) then toEntity (doc c) else e) ents = ents"
    using assms(2) by (induction ents) auto
  with assms(1) show ?thesis by (simp add: applyDocChange_def)
qed

text \<open>
  C8. A \<^verbatim>\<open>modified\<close> change whose id no stored entity has changes nothing: the handler
  returns (the model is a total function, without an error branch), and the entities
  stored afterwards are the entities stored before, none added and none altered.
\<close>

theorem modified_absent_is_noop:
  assumes "entity_id (toEntity d) \<notin> set (map entity_id (heap m (entities (state m))))"
  shows "heap (onCollectionUpdate toEntity [\<lparr>type_dc = ''modified'', doc = d\<rparr>] m)
              (entities (state (onCollectionUpdate toEntity [\<lparr>type_dc = ''modified'', doc = d\<rparr>] m)))
           = heap m (entities (state m))
         \<and> applyDocChange toEntity (heap m (entities (state m))) \<lparr>type_dc = ''modified'', doc = d\<rparr>
           = heap m (entities (state m))"
  using applyDocChange_modified_absent[of "\<lparr>type_dc = ''modified'', doc = d\<rparr>" toEntity] assms
  by (simp add: onCollectionUpdate_def alloc_def)

text \<open>A \<^verbatim>\<open>modified\<close> change for the id \<open>q\<close>, which none of the three entities has.\<close>

theorem modified_absent_is_noop_witness:
  "heap (onCollectionUpdate id [\<lparr>type_dc = ''modified'', doc = ent ''q'' None ''w''\<rparr>] three_added)
        (entities (state (onCollectionUpdate id
             [\<lparr>type_dc = ''modified'', doc = ent ''q'' None ''w''\<rparr>] three_added)))
     = [ent ''a'' (Some 1) ''x'', ent ''b'' (Some 5) ''y'', ent ''c'' (Some 5) ''z'']"
  using modified_absent_is_noop[of id "ent ''q'' None ''w''" three_added]
  by (simp add: three_added_heap ent_def)

section \<open>Memoization and the stored array\<close>

lemma filterEntities_hit:
  "memo m = Some (a, flt, r) \<Longrightarrow> filterEntities matches a flt m = (r, m)"
  by (simp add: filterEntities_def)

lemma filterEntities_miss:
  assumes "\<And>r. memo m \<noteq> Some (a, flt, r)"
  shows "filterEntities matches a flt m = call_and_remember matches a flt m"
proof (cases "memo m")
  case None
  then show ?thesis by (simp add: filterEntities_def)
next
  case (Some t)
  obtain la lf lr where t: "t = (la, lf, lr)" by (cases t)
  with Some assms[of lr] have "\<not> (la = a \<and> lf = flt)" by auto
  with Some t show ?thesis by (auto simp: filterEntities_def)
qed

lemma call_and_remember_eq:
  "call_and_remember matches a flt m
     = (fst (filterEntities_fn matches a flt m),
        (snd (filterEntities_fn matches a flt m))
          \<lparr>memo := Some (a, flt, fst (filterEntities_fn matches a flt m))\<rparr>)"
  by (simp add: call_and_remember_def case_prod_beta)

lemma filterEntities_fn_keeps:
  "state (snd (filterEntities_fn matches a flt m)) = state m"
  "memo (snd (filterEntities_fn matches a flt m)) = memo m"
  by (simp_all add: filterEntities_fn_def alloc_def)

lemma filterEntities_cases:
  obtains (hit) r where "memo m = Some (a, flt, r)" "filterEntities matches a flt m = (r, m)"
  | (miss) "filterEntities matches a flt m = call_and_remember matches a flt m"
proof (cases "\<exists>r. memo m = Some (a, flt, r)")
  case True
  then obtain r where "memo m = Some (a, flt, r)" ..
  then show ?thesis using hit filterEntities_hit by blast
next
  case False
  then have "filterEntities matches a flt m = call_and_remember matches a flt m"
    by (intro filterEntities_miss) simp
  then show ?thesis by (rule miss)
qed

lemma filterEntities_keeps_state:
  "state (snd (filterEntities matches a flt m)) = state m"
  by (cases rule: filterEntities_cases[of m a flt matches])
     (simp_all add: call_and_remember_eq filterEntities_fn_keeps)

lemma filterEntities_remembers:
  "memo (snd (filterEntities matches a flt m)) = Some (a, flt, fst (filterEntities matches a flt m))"
  by (cases rule: filterEntities_cases[of m a flt matches])
     (simp_all add: call_and_remember_eq)


text \<open>
  C9. The filter is set to \<open>flt\<close> and the list is drawn, then the filter is set to the same
  \<open>flt\<close> and the list is drawn again, with nothing in between: the second call of the
  memoized \<^verbatim>\<open>filterEntities\<close> returns the array object the first one returned, and creates
  or changes no array.
\<close>

theorem same_filter_twice_same_array:
  "(let m1 = handleFilterChange flt m;
        (r1, m2) = filterEntities matches (entities (state m1)) (filter_st (state m1)) m1;
        m3 = handleFilterChange flt m2;
        (r2, m4) = filterEntities matches (entities (state m3)) (filter_st (state m3)) m3
    in r2 = r1 \<and> heap m4 = heap m2 \<and> next_free m4 = next_free m2)"
proof -
  define m1 where "m1 = handleFilterChange flt m"
  define r1 where "r1 = fst (filterEntities matches (entities (state m1)) (filter_st (state m1)) m1)"
  define m2 where "m2 = snd (filterEntities matches (entities (state m1)) (filter_st (state m1)) m1)"
  define m3 where "m3 = handleFilterChange flt m2"
  have f1: "filter_st (state m1) = Some flt"
    by (simp add: m1_def handleFilterChange_def)
  have "state m2 = state m1"
    unfolding m2_def by (rule filterEntities_keeps_state)
  then have s3: "entities (state m3) = entities (state m1)" "filter_st (state m3) = Some flt"
    by (simp_all add: m3_def handleFilterChange_def)
  have "memo m2 = Some (entities (state m1), Some flt, r1)"
    unfolding m2_def r1_def using filterEntities_remembers[of matches _ _ m1] f1 by simp
  then have "memo m3 = Some (entities (state m3), filter_st (state m3), r1)"
    using s3 by (simp add: m3_def handleFilterChange_def)
  then have "filterEntities matches (entities (state m3)) (filter_st (state m3)) m3 = (r1, m3)"
    by (rule filterEntities_hit)
  moreover have "heap m3 = heap m2" "next_free m3 = next_free m2"
    by (simp_all add: m3_def handleFilterChange_def)
  ultimately show ?thesis
    by (simp add: Let_def case_prod_beta m1_def r1_def m2_def m3_def)
qed

text \<open>
  With a filter that is not empty the array that is sorted is a new one: the array the
  function was given keeps its elements and their order, and the state is not written.
\<close>

lemma filterEntities_fn_with_filter:
  assumes "\<not> isStringEmpty flt" and "a \<noteq> next_free m"
  shows "heap (snd (filterEntities_fn matches a flt m)) a = heap m a"
    and "fst (filterEntities_fn matches a flt m) \<noteq> a"
    and "state (snd (filterEntities_fn matches a flt m)) = state m"
  using assms by (simp_all add: filterEntities_fn_def alloc_def)

text \<open>
  C5. The claim is that computing the display sequence leaves the stored array as it
  is. Here the list has fetched an empty collection and then received two \<^verbatim>\<open>added\<close>
  changes, the older entity first; no filter is set. Drawing the list keeps
  \<^verbatim>\<open>state.entities\<close> pointing at the same array, and that array now holds the two
  entities in the other order: without a filter the array that is sorted in place is
  the stored one.
\<close>

theorem render_sorts_stored_array:
  "status (state fetched_then_two_added) = STATUS_SUCCESS
   \<and> filter_st (state fetched_then_two_added) = None
   \<and> heap fetched_then_two_added (entities (state fetched_then_two_added))
       = [ent ''a'' (Some 1) ''x'', ent ''b'' (Some 5) ''y'']
   \<and> entities (state (snd (renderContent payload_matches fetched_then_two_added)))
       = entities (state fetched_then_two_added)
   \<and> heap (snd (renderContent payload_matches fetched_then_two_added))
           (entities (state fetched_then_two_added))
       = [ent ''b'' (Some 5) ''y'', ent ''a'' (Some 1) ''x'']"
  by (simp add: fetched_then_two_added_def renderContent_def filterEntities_def
        call_and_remember_def filterEntities_fn_def onCollectionUpdate_def refreshEntities_def componentDidMount_def alloc_def initial_def
        initialState_def applyDocChange_def change_def isStringEmpty_def array_sort_def
        compareUpdatedAt_def ent_def)

section \<open>Teardown and the status\<close>

text \<open>
  \<^verbatim>\<open>componentWillUnmount\<close> by itself: it calls the stored \<^verbatim>\<open>unsubscribe\<close> function, so that
  the query no longer holds the listener; without a stored function it does nothing,
  and a second call changes nothing more. It writes neither the state nor an array.
\<close>

lemma componentWillUnmount_unsubscribes:
  "state (componentWillUnmount m) = state m"
  "heap (componentWillUnmount m) = heap m"
  "unsubscribe m \<Longrightarrow> \<not> listening (componentWillUnmount m)"
  "\<not> unsubscribe m \<Longrightarrow> componentWillUnmount m = m"
  "componentWillUnmount (componentWillUnmount m) = componentWillUnmount m"
  by (simp_all add: componentWillUnmount_def)

text \<open>While the component is mounted, what a handler writes is what the component holds.\<close>

lemma with_setState_mounted:
  "phase f = Mounted \<Longrightarrow> inst (with_setState handler f) = handler (inst f)"
  by (simp add: with_setState_def)

lemma with_setState_not_mounted:
  "phase f \<noteq> Mounted \<Longrightarrow>
   state (inst (with_setState handler f)) = state (inst f)
   \<and> heap (inst (with_setState handler f)) = heap (handler (inst f))
   \<and> next_free (inst (with_setState handler f)) = next_free (handler (inst f))
   \<and> listening (inst (with_setState handler f)) = listening (handler (inst f))
   \<and> phase (with_setState handler f) = phase f"
  by (simp add: with_setState_def)

text \<open>
  What the handlers do to the listener and the arrays, whatever becomes of the state:
  they leave the listener alone and only create arrays.
\<close>

lemma handler_frame:
  assumes "ev \<noteq> Rendered" and "ev \<noteq> Mount" and "ev \<noteq> Unmount"
  shows "listening (step toEntity translate matches ev m) = listening m
         \<and> next_free m \<le> next_free (step toEntity translate matches ev m)
         \<and> (a < next_free m \<longrightarrow> heap (step toEntity translate matches ev m) a = heap m a)"
  using assms
  by (cases ev; simp add: onCollectionUpdate_def onCollectionError_def refreshEntities_def
        handleRefresh_def handleRefresh_settled_def handleFilterChange_def
        handleCloseFilterPress_def alloc_def Let_def split: sum.splits)+

lemma react_step_handler:
  assumes "ev \<noteq> Rendered" and "ev \<noteq> Mount" and "ev \<noteq> Unmount"
  shows "react_step toEntity translate matches ev f
           = with_setState (step toEntity translate matches ev) f"
  using assms by (cases ev) (simp_all add: with_setState_def)

lemma react_step_unmounted:
  assumes "phase f = Unmounted"
  shows "phase (react_step toEntity translate matches ev f) = Unmounted
    \<and> state (inst (react_step toEntity translate matches ev f)) = state (inst f)
    \<and> listening (inst (react_step toEntity translate matches ev f)) = listening (inst f)
    \<and> next_free (inst f) \<le> next_free (inst (react_step toEntity translate matches ev f))
    \<and> (a < next_free (inst f) \<longrightarrow>
           heap (inst (react_step toEntity translate matches ev f)) a = heap (inst f) a)"
proof -
  consider "ev = Rendered \<or> ev = Mount \<or> ev = Unmount"
    | "ev \<noteq> Rendered" "ev \<noteq> Mount" "ev \<noteq> Unmount" by blast
  then show ?thesis
  proof cases
    case 1
    with assms show ?thesis by auto
  next
    case 2
    from assms have nm: "phase f \<noteq> Mounted" by simp
    show ?thesis
      using with_setState_not_mounted[OF nm, of "step toEntity translate matches ev"]
            handler_frame[OF 2, where toEntity = toEntity and translate = translate
              and matches = matches and m = "inst f" and a = a] assms
      by (simp add: react_step_handler[OF 2])
  qed
qed

lemma react_run_unmounted:
  assumes "phase f = Unmounted"
  shows "phase (react_run toEntity translate matches evs f) = Unmounted
    \<and> state (inst (react_run toEntity translate matches evs f)) = state (inst f)
    \<and> listening (inst (react_run toEntity translate matches evs f)) = listening (inst f)
    \<and> next_free (inst f) \<le> next_free (inst (react_run toEntity translate matches evs f))
    \<and> (a < next_free (inst f) \<longrightarrow>
           heap (inst (react_run toEntity translate matches evs f)) a = heap (inst f) a)"
  using assms
proof (induction evs arbitrary: f)
  case Nil
  then show ?case by (simp add: react_run_def)
next
  case (Cons ev evs)
  let ?g = "react_step toEntity translate matches ev f"
  note s = react_step_unmounted[OF Cons.prems, where toEntity = toEntity
               and translate = translate and matches = matches and ev = ev and a = a]
  then have "phase ?g = Unmounted" by simp
  note ih = Cons.IH[OF this]
  have run: "react_run toEntity translate matches (ev # evs) f
               = react_run toEntity translate matches evs ?g"
    by (simp add: react_run_def)
  from ih s show ?case
    unfolding run by auto
qed

lemma shown_list_eq:
  "phase shown_list = Mounted"
  "state (inst shown_list) = \<lparr>entities = 1, filter_st = None, isRefreshing = False,
                                status = STATUS_SUCCESS, error = None\<rparr>"
  "heap (inst shown_list) (Suc 0) = [ent ''a'' (Some 1) ''x'']"
  "next_free (inst shown_list) = 2"
  "unsubscribe (inst shown_list)"
  "listening (inst shown_list)"
  by (simp_all add: shown_list_def react_run_def constructed_def initial_def initialState_def
        with_setState_def componentDidMount_def refreshEntities_def alloc_def renderContent_def
        filterEntities_def call_and_remember_def filterEntities_fn_def isStringEmpty_def
        array_sort_def)

text \<open>
  C3. React unmounts a mounted list, which runs \<^verbatim>\<open>componentWillUnmount\<close>. Whatever happens
  afterwards, in any number and order (the delta handler is called, the error handler
  is called, a fetch that was pending settles), \<^verbatim>\<open>this.state\<close> is what it was before the
  unmount: entities, status, filter and error are unchanged. The listener stays
  removed, and the elements of the stored array are the same.
\<close>

theorem no_write_after_unmount:
  assumes "phase f = Mounted"
  shows "(let g = react_step toEntity translate matches Unmount f;
              h = react_run toEntity translate matches evs g
          in state (inst g) = state (inst f)
             \<and> state (inst h) = state (inst f)
             \<and> (unsubscribe (inst f) \<longrightarrow> \<not> listening (inst h))
             \<and> (entities (state (inst f)) < next_free (inst f) \<longrightarrow>
                  heap (inst h) (entities (state (inst h)))
                    = heap (inst f) (entities (state (inst f)))))"
proof -
  let ?g = "react_step toEntity translate matches Unmount f"
  have g: "phase ?g = Unmounted" "state (inst ?g) = state (inst f)" "heap (inst ?g) = heap (inst f)"
    "next_free (inst ?g) = next_free (inst f)" "unsubscribe (inst f) \<Longrightarrow> \<not> listening (inst ?g)"
    using assms by (simp_all add: componentWillUnmount_def)
  from react_run_unmounted[OF g(1), where toEntity = toEntity and translate = translate
         and matches = matches and evs = evs and a = "entities (state (inst f))"] g
  show ?thesis by (simp add: Let_def)
qed

text \<open>
  A list that has fetched one entity and was drawn is unmounted; then a snapshot
  arrives, the feed fails, a fetch settles and a refresh fails.
\<close>

theorem no_write_after_unmount_witness:
  "status (state (inst (react_run id sample_translate payload_matches late_events
             (react_step id sample_translate payload_matches Unmount shown_list)))) = STATUS_SUCCESS
   \<and> error (state (inst (react_run id sample_translate payload_matches late_events
             (react_step id sample_translate payload_matches Unmount shown_list)))) = None
   \<and> heap (inst (react_run id sample_translate payload_matches late_events
             (react_step id sample_translate payload_matches Unmount shown_list)))
          (entities (state (inst (react_run id sample_translate payload_matches late_events
             (react_step id sample_translate payload_matches Unmount shown_list)))))
       = [ent ''a'' (Some 1) ''x'']
   \<and> \<not> listening (inst (react_run id sample_translate payload_matches late_events
             (react_step id sample_translate payload_matches Unmount shown_list)))"
proof -
  let ?h = "react_run id sample_translate payload_matches late_events
              (react_step id sample_translate payload_matches Unmount shown_list)"
  have mounted: "phase shown_list = Mounted"
    by (rule shown_list_eq)
  note after = no_write_after_unmount[OF mounted, where toEntity = id
      and translate = sample_translate and matches = payload_matches and evs = late_events,
      unfolded Let_def]
  from after have st: "state (inst ?h) = state (inst shown_list)"
    by blast
  from after shown_list_eq(5) have gone: "\<not> listening (inst ?h)"
    by blast
  have "entities (state (inst shown_list)) < next_free (inst shown_list)"
    by (simp add: shown_list_eq)
  with after have "heap (inst ?h) (entities (state (inst ?h)))
                     = heap (inst shown_list) (entities (state (inst shown_list)))"
    by blast
  then have kept: "heap (inst ?h) (entities (state (inst ?h))) = [ent ''a'' (Some 1) ''x'']"
    by (simp add: shown_list_eq del: react_step.simps)
  have "status (state (inst ?h)) = STATUS_SUCCESS" and "error (state (inst ?h)) = None"
    unfolding st by (simp_all add: shown_list_eq)
  with kept gone show ?thesis
    by (intro conjI)
qed

text \<open>The same events on the list while it is mounted are written.\<close>

lemma writes_while_mounted:
  "status (state (inst (react_run id sample_translate payload_matches late_events shown_list)))
     = STATUS_ERROR
   \<and> error (state (inst (react_run id sample_translate payload_matches late_events shown_list)))
     = Some ''Error: late''
   \<and> heap (inst (react_run id sample_translate payload_matches late_events shown_list))
          (entities (state (inst (react_run id sample_translate payload_matches late_events shown_list))))
     = [ent ''c'' (Some 7) ''z'']"
  by (simp add: late_events_def react_run_def with_setState_def shown_list_eq
        onCollectionUpdate_def onCollectionError_def refreshEntities_def handleRefresh_settled_def
        alloc_def applyDocChange_def change_def array_sort_def sample_translate_def)




section \<open>Sign-up: rejections\<close>

text \<open>
  C10. When the email or the password is absent or empty, the promise of \<^verbatim>\<open>signUp\<close>
  rejects and the backend is not called. Whenever the promise rejects, the message of
  its \<^verbatim>\<open>Error\<close> is a result of the translation function.
\<close>

theorem signUp_missing_field_rejects:
  "((email = None \<or> email = Some [] \<or> password = None \<or> password = Some []) \<longrightarrow>
      (\<exists>err. fst (signUp translate createUser email password) = Inl (translate err))
      \<and> snd (signUp translate createUser email password) = [])
   \<and> (\<forall>msg. fst (signUp translate createUser email password) = Inl msg \<longrightarrow>
         (\<exists>err. msg = translate err))"
  by (auto simp: signUp_def isStringEmpty_def split: option.splits sum.splits)

text \<open>A call without an email.\<close>

theorem signUp_missing_field_rejects_witness:
  "fst (signUp thrown_message sample_createUser None (Some ''secret'')) = Inl ''Email is required.''
   \<and> snd (signUp thrown_message sample_createUser None (Some ''secret'')) = []"
  using signUp_missing_field_rejects[of None "Some ''secret''" thrown_message sample_createUser]
  by (simp add: signUp_def isStringEmpty_def thrown_message_def)

lemma signUp_examples:
  "signUp thrown_message sample_createUser (Some []) (Some ''secret'') = (Inl ''Email is required.'', [])"
  "signUp thrown_message sample_createUser (Some ''a@example.org'') None = (Inl ''Password is required.'', [])"
  "signUp thrown_message sample_createUser (Some ''taken@example.org'') (Some ''secret'')
     = (Inl ''auth/email-already-in-use'', [(''taken@example.org'', ''secret'')])"
  "signUp thrown_message sample_createUser (Some ''a@example.org'') (Some ''secret'')
     = (Inr (), [(''a@example.org'', ''secret'')])"
  by (simp_all add: signUp_def isStringEmpty_def thrown_message_def sample_createUser_def)

section \<open>What the memoized function remembers, in every run\<close>

lemma array_sort_sorted_id:
  "successively (\<lambda>a b. cmp a b \<le> 0) xs \<Longrightarrow> array_sort cmp xs = xs"
proof (induction xs)
  case Nil
  show ?case by (simp add: array_sort_Nil)
next
  case (Cons x xs)
  from Cons.prems have "successively (\<lambda>a b. cmp a b \<le> 0) xs"
    by (cases xs) simp_all
  then have "array_sort cmp xs = xs" by (rule Cons.IH)
  moreover have "insert_by cmp x xs = x # xs"
    using Cons.prems by (cases xs) auto
  ultimately show ?case by (simp add: array_sort_Cons)
qed

lemma array_sort_twice:
  "array_sort compareUpdatedAt (array_sort compareUpdatedAt xs) = array_sort compareUpdatedAt xs"
  by (rule array_sort_sorted_id) (rule successively_array_sort)

lemma memo_ok_iff:
  "memo_ok matches m \<longleftrightarrow>
     entities (state m) < next_free m \<and>
     (\<forall>a flt r. memo m = Some (a, flt, r) \<longrightarrow>
        a < next_free m \<and> r < next_free m \<and>
        heap m r = array_sort compareUpdatedAt
          (if isStringEmpty flt then heap m a else filter (\<lambda>e. matches (the flt) e) (heap m a)))"
  by (auto simp: memo_ok_def split: option.splits)

lemma memo_ok_same:
  assumes "memo_ok matches m"
      and "entities (state m') = entities (state m)" and "next_free m' = next_free m"
      and "memo m' = memo m" and "heap m' = heap m"
  shows "memo_ok matches m'"
  using assms by (simp add: memo_ok_iff)

lemma memo_ok_initial: "memo_ok matches initial"
  by (simp add: memo_ok_iff initial_def initialState_def)

lemma memo_ok_alloc_entities:
  assumes "memo_ok matches m"
  shows "memo_ok matches ((snd (alloc xs m))\<lparr>state := st\<lparr>entities := fst (alloc xs m)\<rparr>\<rparr>)"
  using assms by (auto simp: memo_ok_iff alloc_def)

lemma memo_ok_onCollectionUpdate:
  "memo_ok matches m \<Longrightarrow> memo_ok matches (onCollectionUpdate toEntity cs m)"
  using memo_ok_alloc_entities[of matches m]
  by (simp add: onCollectionUpdate_def Let_def case_prod_beta)

lemma memo_ok_refreshEntities:
  assumes "memo_ok matches m"
  shows "memo_ok matches (refreshEntities toEntity translate outcome m)"
proof (cases outcome)
  case (Inl err)
  show ?thesis
    by (rule memo_ok_same[OF assms]) (simp_all add: Inl refreshEntities_def)
next
  case (Inr docs)
  let ?xs = "array_sort compareUpdatedAt (map toEntity docs)"
  have "memo_ok matches ((snd (alloc ?xs m))\<lparr>state := (state m)\<lparr>entities := fst (alloc ?xs m)\<rparr>\<rparr>)"
    using assms by (rule memo_ok_alloc_entities)
  then show ?thesis
    by (rule memo_ok_same) (simp_all add: Inr refreshEntities_def alloc_def)
qed

lemma memo_ok_filterEntities:
  assumes "memo_ok matches m"
  shows "memo_ok matches (snd (filterEntities matches (entities (state m)) (filter_st (state m)) m))"
proof (cases rule: filterEntities_cases[of m "entities (state m)" "filter_st (state m)" matches])
  case (hit r)
  with assms show ?thesis by simp
next
  case miss
  from assms have lt: "entities (state m) < next_free m"
    and old: "\<And>a flt r. memo m = Some (a, flt, r) \<Longrightarrow> a < next_free m \<and> r < next_free m"
    by (simp_all add: memo_ok_iff)
  show ?thesis
  proof (cases "isStringEmpty (filter_st (state m))")
    case True
    with lt show ?thesis
      by (simp add: miss call_and_remember_eq filterEntities_fn_def memo_ok_iff array_sort_twice)
  next
    case False
    with lt show ?thesis
      by (simp add: miss call_and_remember_eq filterEntities_fn_def memo_ok_iff alloc_def)
  qed
qed

lemma memo_ok_renderContent:
  "memo_ok matches m \<Longrightarrow> memo_ok matches (snd (renderContent matches m))"
  using memo_ok_filterEntities[of matches m]
  by (simp add: renderContent_def case_prod_beta)

lemma memo_ok_step:
  assumes "memo_ok matches m"
  shows "memo_ok matches (step toEntity translate matches ev m)"
proof (cases ev)
  case (Snapshot cs)
  with assms show ?thesis by (simp add: memo_ok_onCollectionUpdate)
next
  case (FetchSettled outcome)
  with assms show ?thesis by (simp add: memo_ok_refreshEntities)
next
  case (RefreshSettled outcome)
  have "memo_ok matches (refreshEntities toEntity translate outcome m)"
    using assms by (rule memo_ok_refreshEntities)
  then show ?thesis
    by (rule memo_ok_same) (simp_all add: RefreshSettled handleRefresh_settled_def Let_def)
next
  case Rendered
  with assms show ?thesis by (simp add: memo_ok_renderContent)
next
  case Mount
  show ?thesis
    by (rule memo_ok_same[OF assms]) (simp_all add: Mount componentDidMount_def)
next
  case (SnapshotFailed err)
  show ?thesis
    by (rule memo_ok_same[OF assms]) (simp_all add: SnapshotFailed onCollectionError_def)
next
  case RefreshPulled
  show ?thesis
    by (rule memo_ok_same[OF assms]) (simp_all add: RefreshPulled handleRefresh_def)
next
  case (FilterChanged flt)
  show ?thesis
    by (rule memo_ok_same[OF assms]) (simp_all add: FilterChanged handleFilterChange_def)
next
  case FilterClosed
  show ?thesis
    by (rule memo_ok_same[OF assms]) (simp_all add: FilterClosed handleCloseFilterPress_def)
next
  case Unmount
  show ?thesis
    by (rule memo_ok_same[OF assms]) (simp_all add: Unmount componentWillUnmount_def)
qed

lemma memo_ok_foldl:
  "memo_ok matches m \<Longrightarrow> memo_ok matches (foldl (\<lambda>m ev. step toEntity translate matches ev m) m evs)"
  by (induction evs arbitrary: m) (simp_all add: memo_ok_step)

lemma memo_ok_run: "memo_ok matches (run toEntity translate matches evs)"
  unfolding run_def by (rule memo_ok_foldl) (rule memo_ok_initial)

lemma filterEntities_returns_displayed:
  assumes "memo_ok matches m"
  shows "heap (snd (filterEntities matches (entities (state m)) (filter_st (state m)) m))
              (fst (filterEntities matches (entities (state m)) (filter_st (state m)) m))
           = displayed matches (entities (state m)) (filter_st (state m)) m"
proof (cases rule: filterEntities_cases[of m "entities (state m)" "filter_st (state m)" matches])
  case (hit r)
  with assms show ?thesis
    by (simp add: memo_ok_iff displayed_eq)
next
  case miss
  show ?thesis
    by (simp add: miss call_and_remember_eq displayed_def case_prod_beta)
qed

section \<open>Duplicates and the mapping\<close>

lemma distinct_ids_array_sort:
  "distinct (map entity_id (array_sort cmp xs)) = distinct (map entity_id xs)"
proof -
  have "mset (map entity_id (array_sort cmp xs)) = mset (map entity_id xs)"
    by (simp add: mset_array_sort)
  then show ?thesis by (rule mset_eq_imp_distinct_iff)
qed

text \<open>
  C2, as amended. The display sequence holds exactly the candidates, each as often as
  the stored array holds it: every stored entity when the filter is absent or empty,
  the stored entities that \<open>matches\<close> accepts otherwise. When the stored entities have
  pairwise different ids, so has the display sequence. This is so for the function
  handed to \<^verbatim>\<open>memoize\<close> on any array, and in every run of the list the memoized
  function, called on the state as \<^verbatim>\<open>renderContent\<close> calls it, returns an array with
  these very elements.
\<close>

theorem display_is_matching_entities:
  "mset (displayed matches a flt m)
     = mset (if isStringEmpty flt then heap m a else filter (\<lambda>e. matches (the flt) e) (heap m a))
   \<and> (distinct (map entity_id (heap m a)) \<longrightarrow> distinct (map entity_id (displayed matches a flt m)))
   \<and> (let s = run toEntity translate matches evs;
           res = filterEntities matches (entities (state s)) (filter_st (state s)) s
       in heap (snd res) (fst res) = displayed matches (entities (state s)) (filter_st (state s)) s)"
  using filterEntities_returns_displayed[OF memo_ok_run, of matches toEntity translate evs]
  by (simp add: displayed_eq mset_array_sort distinct_ids_array_sort distinct_map_filter Let_def)

text \<open>The three entities under the filter \<open>y\<close>, which one of them matches.\<close>

theorem display_is_matching_entities_witness:
  "mset (displayed payload_matches (entities (state three_added)) (Some ''y'') three_added)
     = {# ent ''b'' (Some 5) ''y'' #}
   \<and> distinct (map entity_id (displayed payload_matches (entities (state three_added)) (Some ''y'') three_added))"
  using display_is_matching_entities[where matches = payload_matches
          and a = "entities (state three_added)" and flt = "Some ''y''" and m = three_added
          and toEntity = id and translate = sample_translate and evs = "[]"]
  by (simp add: three_added_heap isStringEmpty_def ent_def payload_matches_def)

lemma twice_added_heap:
  "heap twice_added (entities (state twice_added)) = [ent ''a'' (Some 1) ''x'', ent ''a'' (Some 2) ''y'']"
  by (simp add: twice_added_def onCollectionUpdate_def alloc_def initial_def initialState_def
                applyDocChange_def change_def)

text \<open>
  C2, as stated, fails: after two \<^verbatim>\<open>added\<close> changes with the id \<open>a\<close> the display sequence
  holds two elements with that id.
\<close>

theorem display_repeats_id:
  "map entity_id (displayed payload_matches (entities (state twice_added)) None twice_added)
     = [Some ''a'', Some ''a'']"
  by (simp add: displayed_eq twice_added_heap isStringEmpty_def array_sort_def compareUpdatedAt_def ent_def)

text \<open>
  C1, as stated, fails: a second \<^verbatim>\<open>added\<close> change for the id \<open>a\<close> leaves two entries
  with that id in the stored array.
\<close>

theorem second_added_duplicates:
  "map entity_id (heap twice_added (entities (state twice_added))) = [Some ''a'', Some ''a'']
   \<and> length (heap twice_added (entities (state twice_added))) = 2"
  by (simp add: twice_added_heap ent_def)

lemma entities_map_append:
  assumes "entity_id e \<notin> set (map entity_id ents)"
  shows "entities_map (ents @ [e]) = (entities_map ents)(entity_id e \<mapsto> e)"
proof -
  have "map_of (map (\<lambda>e. (entity_id e, e)) ents) (entity_id e) = None"
    using assms by (simp add: map_of_eq_None_iff image_image)
  then show ?thesis
    by (auto simp: entities_map_def fun_eq_iff map_add_def split: option.splits)
qed

lemma entities_map_removed:
  "entities_map (filter (\<lambda>x. entity_id x \<noteq> k) ents) = (entities_map ents)(k := None)"
  by (induction ents) (auto simp: entities_map_def fun_eq_iff)

lemma entities_map_modified:
  assumes "entity_id e = k"
  shows "entities_map (map (\<lambda>x. if entity_id x = k then e else x) ents)
           = (if entities_map ents k \<noteq> None then (entities_map ents)(k \<mapsto> e) else entities_map ents)"
  using assms by (induction ents) (auto simp: entities_map_def fun_eq_iff)

lemma ids_modified:
  "entity_id e = k \<Longrightarrow>
   map entity_id (map (\<lambda>x. if entity_id x = k then e else x) ents) = map entity_id ents"
  by (induction ents) auto

lemma distinct_ids_modified:
  assumes "distinct (map entity_id ents)" and "entity_id e = k"
  shows "distinct (map entity_id (map (\<lambda>x. if entity_id x = k then e else x) ents))"
  using assms by (simp only: ids_modified)

lemma applyDocChange_refines:
  assumes "type_dc c \<noteq> ''added'' \<or> entity_id (toEntity (doc c)) \<notin> set (map entity_id ents)"
  shows "entities_map (applyDocChange toEntity ents c)
           = applyDelta_spec (entities_map ents) (type_dc c, toEntity (doc c))"
  using assms
  by (auto simp: applyDocChange_def applyDelta_spec_def Let_def entities_map_append
                 entities_map_removed entities_map_modified)

lemma applyDocChange_distinct:
  assumes "distinct (map entity_id ents)"
      and "type_dc c \<noteq> ''added'' \<or> entity_id (toEntity (doc c)) \<notin> set (map entity_id ents)"
  shows "distinct (map entity_id (applyDocChange toEntity ents c))"
proof -
  let ?e = "toEntity (doc c)"
  have "distinct (map entity_id (map (\<lambda>x. if entity_id x = entity_id ?e then ?e else x) ents))"
    using assms(1) by (rule distinct_ids_modified) simp
  moreover have "distinct (map entity_id (filter (\<lambda>x. entity_id x \<noteq> entity_id ?e) ents))"
    using assms(1) by (rule distinct_map_filter)
  moreover have "type_dc c = ''added'' \<Longrightarrow> distinct (map entity_id (ents @ [?e]))"
    using assms by auto
  ultimately show ?thesis
    using assms(1) by (simp add: applyDocChange_def Let_def del: map_map)
qed

lemma foldl_applyDocChange_refines:
  assumes "distinct (map entity_id ents)" and "fresh_adds toEntity ents cs"
  shows "distinct (map entity_id (foldl (applyDocChange toEntity) ents cs))
         \<and> entities_map (foldl (applyDocChange toEntity) ents cs)
             = foldl applyDelta_spec (entities_map ents) (map (\<lambda>c. (type_dc c, toEntity (doc c))) cs)"
  using assms
proof (induction cs arbitrary: ents)
  case Nil
  then show ?case by simp
next
  case (Cons c cs)
  from Cons.prems have fresh: "type_dc c \<noteq> ''added'' \<or> entity_id (toEntity (doc c)) \<notin> set (map entity_id ents)"
    and rest: "fresh_adds toEntity (applyDocChange toEntity ents c) cs"
    by simp_all
  have d: "distinct (map entity_id (applyDocChange toEntity ents c))"
    using Cons.prems(1) fresh by (rule applyDocChange_distinct)
  have r: "entities_map (applyDocChange toEntity ents c)
             = applyDelta_spec (entities_map ents) (type_dc c, toEntity (doc c))"
    using fresh by (rule applyDocChange_refines)
  from Cons.IH[OF d rest] r show ?case by simp
qed

text \<open>
  C1, as amended. The stored entities have pairwise different ids, and every \<^verbatim>\<open>added\<close>
  change of the sequence carries an id that is not stored when the change is applied.
  Then after \<^verbatim>\<open>onCollectionUpdate\<close> the stored entities again have pairwise different
  ids, and they stand for the mapping that the spec's fold makes of the same changes:
  one entry per id, holding the outcome of the last change for that id, with
  \<^verbatim>\<open>modified\<close> and \<^verbatim>\<open>removed\<close> doing nothing for an id that is not stored.
\<close>

theorem deltas_refine_mapping:
  assumes "distinct (map entity_id (heap m (entities (state m))))"
      and "fresh_adds toEntity (heap m (entities (state m))) cs"
  shows "distinct (map entity_id (heap (onCollectionUpdate toEntity cs m)
                                       (entities (state (onCollectionUpdate toEntity cs m)))))
         \<and> entities_map (heap (onCollectionUpdate toEntity cs m)
                               (entities (state (onCollectionUpdate toEntity cs m))))
             = foldl applyDelta_spec (entities_map (heap m (entities (state m))))
                     (map (\<lambda>c. (type_dc c, toEntity (doc c))) cs)"
  using foldl_applyDocChange_refines[OF assms]
  by (simp add: onCollectionUpdate_def alloc_def)



text \<open>
  The three entities, then: \<open>b\<close> modified, \<open>a\<close> removed, \<open>d\<close> added, and a \<^verbatim>\<open>modified\<close>
  change for \<open>q\<close>, which is not stored.
\<close>

theorem deltas_refine_mapping_witness:
  "distinct (map entity_id (heap (onCollectionUpdate id later_changes three_added)
                                       (entities (state (onCollectionUpdate id later_changes three_added)))))
   \<and> entities_map (heap (onCollectionUpdate id later_changes three_added)
                               (entities (state (onCollectionUpdate id later_changes three_added)))) (Some ''b'')
      = Some (ent ''b'' (Some 9) ''y2'')
   \<and> entities_map (heap (onCollectionUpdate id later_changes three_added)
                               (entities (state (onCollectionUpdate id later_changes three_added)))) (Some ''a'')
      = None"
  using deltas_refine_mapping[of three_added id later_changes]
  by (simp add: three_added_heap later_changes_def change_def ent_def applyDocChange_def applyDelta_spec_def entities_map_def)

end
